theory Spec2Isabelle
  imports Complex_Main "HOL-Library.Multiset" "HOL-Library.Log_Nat"
begin

section \<open>Data model\<close>

text \<open>
  Shallow embedding of \<^verbatim>\<open>demv.py\<close>: the Group Balancer \<^verbatim>\<open>balance_set\<close>, the recursive
  Partition Driver \<^verbatim>\<open>sample\<close> and the controller class \<^verbatim>\<open>DEMV\<close>.

  A pandas DataFrame is a list of column names and a list of rows. Every row carries its
  index label \<open>ix\<close> (pandas keeps the label of a row when the row is sampled, appended or
  filtered) and its cell values, which are integers here. A Python float is the rational
  number it denotes, and every float operation rounds its exact result to the nearest
  double; the exceptions Python raises are values of type \<open>error\<close>.
\<close>

datatype error = KeyError | ZeroDivisionError | ValueError | IndexError

record row =
  ix :: nat
  cells :: "string \<Rightarrow> int"

record frame =
  columns :: "string list"
  rows :: "row list"

text \<open>\<^verbatim>\<open>len(df)\<close>\<close>

definition len :: "frame \<Rightarrow> nat" where
  "len df = length (rows df)"

text \<open>\<^verbatim>\<open>d[c]\<close> for a column name: the column as a list of values, one per row.\<close>

definition getitem :: "frame \<Rightarrow> string \<Rightarrow> error + int list" where
  "getitem d c =
     (if c \<in> set (columns d) then Inr (map (\<lambda>r. cells r c) (rows d)) else Inl KeyError)"

text \<open>\<^verbatim>\<open>d[s] == v\<close>: the elementwise comparison of a column with a value.\<close>

definition series_eq :: "int list \<Rightarrow> int \<Rightarrow> bool list" where
  "series_eq xs v = map (\<lambda>x. x = v) xs"

text \<open>
  The running condition \<^verbatim>\<open>cond\<close> of \<^verbatim>\<open>sample\<close> starts as the Python value \<^verbatim>\<open>True\<close> and
  becomes a boolean Series once it has been conjoined with a comparison.
\<close>

datatype mask = PyTrue | Mask "bool list"

fun mask_and :: "mask \<Rightarrow> bool list \<Rightarrow> mask" where
  "mask_and PyTrue bs = Mask bs"
| "mask_and (Mask cs) bs = Mask (map2 (\<and>) cs bs)"

text \<open>
  \<^verbatim>\<open>d[cond]\<close>: boolean indexing keeps the rows whose mask entry is true. With the scalar
  \<^verbatim>\<open>True\<close> the lookup is a column lookup, and no column has that name.
\<close>

fun getitem_mask :: "frame \<Rightarrow> mask \<Rightarrow> error + frame" where
  "getitem_mask d PyTrue = Inl KeyError"
| "getitem_mask d (Mask bs) = Inr (d\<lparr>rows := map fst (filter snd (zip (rows d) bs))\<rparr>)"

text \<open>\<^verbatim>\<open>np.unique\<close>: the distinct values, sorted.\<close>

definition np_unique :: "int list \<Rightarrow> int list" where
  "np_unique xs = sort (remdups xs)"

section \<open>Arithmetic\<close>

text \<open>Rounding to the nearest integer, ties to the even neighbour.\<close>

definition round_half_even :: "rat \<Rightarrow> int" where
  "round_half_even q =
     (let f = \<lfloor>q\<rfloor>; r = q - of_int f
      in if r < 1 / 2 then f else if 1 / 2 < r then f + 1 else if even f then f else f + 1)"

text \<open>The binary exponent \<open>\<lfloor>log\<^sub>2 x\<rfloor>\<close> of a positive rational.\<close>

definition ilog2 :: "rat \<Rightarrow> int" where
  "ilog2 x = (if 1 \<le> x then bitlen \<lfloor>x\<rfloor> - 1 else - bitlen (\<lceil>1 / x\<rceil> - 1))"

text \<open>
  The double nearest to an exact result: the significand is rounded to 53 bits, ties to
  even, as IEEE 754 arithmetic does. The exponent is not bounded: the quotients and
  products of row counts that the program computes stay far inside the range of a
  double.
\<close>

definition dbl :: "rat \<Rightarrow> rat" where
  "dbl x =
     (if x = 0 then 0
      else let e = ilog2 \<bar>x\<bar> - 52
           in sgn x * of_int (round_half_even (\<bar>x\<bar> / 2 powi e)) * 2 powi e)"

text \<open>
  Python's true division, of two integers or of two floats: the correctly rounded
  quotient; a zero divisor raises.
\<close>

definition truediv :: "rat \<Rightarrow> rat \<Rightarrow> error + rat" where
  "truediv a b = (if b = 0 then Inl ZeroDivisionError else Inr (dbl (a / b)))"

text \<open>The product of two floats.\<close>

definition mul :: "rat \<Rightarrow> rat \<Rightarrow> rat" where
  "mul a b = dbl (a * b)"

text \<open>
  \<^verbatim>\<open>round(x, n)\<close> for a float \<open>x\<close>: the exact value of \<open>x\<close> is rounded to \<open>n\<close> decimal places,
  ties to the even neighbour, and the result is the double nearest to that decimal.
\<close>

definition py_round :: "rat \<Rightarrow> nat \<Rightarrow> rat" where
  "py_round x n = dbl (of_int (round_half_even (x * 10 ^ n)) / 10 ^ n)"

text \<open>
  \<^verbatim>\<open>round(w_exp / w_obs, round_level) if round_level else w_exp / w_obs\<close>.
  The tolerance \<^verbatim>\<open>round_level\<close> is a number of decimal places or \<^verbatim>\<open>None\<close>; the test is
  Python's truth value, so that \<open>0\<close> counts as unset.
\<close>

definition disp_of :: "nat option \<Rightarrow> rat \<Rightarrow> rat \<Rightarrow> error + rat" where
  "disp_of round_level w_exp w_obs =
     (case truediv w_exp w_obs of
        Inl e \<Rightarrow> Inl e
      | Inr q \<Rightarrow>
          (case round_level of
             None \<Rightarrow> Inr q
           | Some n \<Rightarrow> if n \<noteq> 0 then Inr (py_round q n) else Inr q))"

section \<open>Group Balancer\<close>

text \<open>
  The global random generator is a sequence \<open>rng\<close> of raw draws together with the number
  \<open>pos\<close> of draws consumed so far. \<^verbatim>\<open>df.sample()\<close> takes one row of \<open>df\<close> and fails on an
  empty frame.
\<close>

definition df_sample :: "(nat \<Rightarrow> nat) \<Rightarrow> frame \<Rightarrow> nat \<Rightarrow> error + (row \<times> nat)" where
  "df_sample rng df pos =
     (if rows df = [] then Inl ValueError
      else Inr (rows df ! (rng pos mod length (rows df)), Suc pos))"

text \<open>\<^verbatim>\<open>df.append(r)\<close>: the sampled row goes to the end and keeps its index label.\<close>

definition df_append :: "frame \<Rightarrow> row \<Rightarrow> frame" where
  "df_append df r = df\<lparr>rows := rows df @ [r]\<rparr>"

text \<open>\<^verbatim>\<open>df.drop(r.index, axis=0)\<close>: every row that carries the index label of \<open>r\<close> goes.\<close>

definition df_drop :: "frame \<Rightarrow> row \<Rightarrow> frame" where
  "df_drop df r = df\<lparr>rows := filter (\<lambda>x. ix x \<noteq> ix r) (rows df)\<rparr>"

text \<open>
  One pass through the body of the \<^verbatim>\<open>while\<close> loop of \<^verbatim>\<open>balance_set\<close>: the new observed
  weight, the new group, the new disparity and the new generator position.
\<close>

definition balance_step ::
  "(nat \<Rightarrow> nat) \<Rightarrow> nat option \<Rightarrow> rat \<Rightarrow> frame \<Rightarrow> rat \<Rightarrow> frame \<Rightarrow> nat
     \<Rightarrow> error + (rat \<times> frame \<times> rat \<times> nat)" where
  "balance_step rng round_level w_exp tot_df w_obs df pos =
     (case truediv w_exp w_obs of
        Inl e \<Rightarrow> Inl e
      | Inr q \<Rightarrow>
          (case (if 1 < q then
                   (case df_sample rng df pos of
                      Inl e \<Rightarrow> Inl e
                    | Inr (r, pos') \<Rightarrow> Inr (df_append df r, pos'))
                 else if q < 1 then
                   (case df_sample rng df pos of
                      Inl e \<Rightarrow> Inl e
                    | Inr (r, pos') \<Rightarrow> Inr (df_drop df r, pos'))
                 else Inr (df, pos)) of
             Inl e \<Rightarrow> Inl e
           | Inr (df', pos') \<Rightarrow>
               (case truediv (of_nat (len df')) (of_nat (len tot_df)) of
                  Inl e \<Rightarrow> Inl e
                | Inr w_obs' \<Rightarrow>
                    (case disp_of round_level w_exp w_obs' of
                       Inl e \<Rightarrow> Inl e
                     | Inr disp' \<Rightarrow> Inr (w_obs', df', disp', pos')))))"

text \<open>
  The \<^verbatim>\<open>while disp != 1 and i != k\<close> loop. The state is the observed weight, the group,
  the last disparity, the trace \<^verbatim>\<open>disparity\<close>, the counter \<^verbatim>\<open>i\<close> and the generator
  position.
\<close>

function balance_loop ::
  "(nat \<Rightarrow> nat) \<Rightarrow> nat option \<Rightarrow> int \<Rightarrow> rat \<Rightarrow> frame \<Rightarrow> rat \<Rightarrow> frame \<Rightarrow> rat \<Rightarrow> rat list \<Rightarrow> nat
     \<Rightarrow> nat \<Rightarrow> error + (frame \<times> rat list \<times> nat \<times> nat)" where
  "balance_loop rng round_level k w_exp tot_df w_obs df disp disparity i pos =
     (if disp \<noteq> 1 \<and> int i \<noteq> k then
        (case balance_step rng round_level w_exp tot_df w_obs df pos of
           Inl e \<Rightarrow> Inl e
         | Inr (w_obs', df', disp', pos') \<Rightarrow>
             balance_loop rng round_level k w_exp tot_df w_obs' df' disp'
               (disparity @ [disp']) (i + 1) pos')
      else Inr (df, disparity, i, pos))"
  by pat_completeness auto

text \<open>\<^verbatim>\<open>balance_set(w_exp, w_obs, df, tot_df, round_level, debug, k)\<close>; \<^verbatim>\<open>debug\<close> only prints.\<close>

definition balance_set ::
  "(nat \<Rightarrow> nat) \<Rightarrow> rat \<Rightarrow> rat \<Rightarrow> frame \<Rightarrow> frame \<Rightarrow> nat option \<Rightarrow> int \<Rightarrow> nat
     \<Rightarrow> error + (frame \<times> rat list \<times> nat \<times> nat)" where
  "balance_set rng w_exp w_obs df tot_df round_level k pos =
     (case disp_of round_level w_exp w_obs of
        Inl e \<Rightarrow> Inl e
      | Inr disp \<Rightarrow> balance_loop rng round_level k w_exp tot_df w_obs df disp [disp] 0 pos)"

section \<open>Partition Driver\<close>

text \<open>
  One pass of the \<^verbatim>\<open>for l in np.unique(d[label])\<close> loop prepares a cell: the group
  \<^verbatim>\<open>g = d[cond & (d[label] == l)]\<close>, the expected weight
  \<^verbatim>\<open>(len(d[cond])/len(d)) * (len(d[d[label] == l])/len(d))\<close> and the observed weight
  \<^verbatim>\<open>len(g)/len(d)\<close>.
\<close>

definition cell_weights :: "frame \<Rightarrow> string \<Rightarrow> mask \<Rightarrow> int \<Rightarrow> error + (frame \<times> rat \<times> rat)" where
  "cell_weights d label cond l =
     (case getitem d label of
        Inl e \<Rightarrow> Inl e
      | Inr ys \<Rightarrow>
     (case getitem_mask d (mask_and cond (series_eq ys l)) of
        Inl e \<Rightarrow> Inl e
      | Inr g \<Rightarrow>
     (case getitem_mask d cond of
        Inl e \<Rightarrow> Inl e
      | Inr dc \<Rightarrow>
     (case truediv (of_nat (len dc)) (of_nat (len d)) of
        Inl e \<Rightarrow> Inl e
      | Inr pc \<Rightarrow>
     (case getitem_mask d (Mask (series_eq ys l)) of
        Inl e \<Rightarrow> Inl e
      | Inr dl \<Rightarrow>
     (case truediv (of_nat (len dl)) (of_nat (len d)) of
        Inl e \<Rightarrow> Inl e
      | Inr pl \<Rightarrow>
     (case truediv (of_nat (len g)) (of_nat (len d)) of
        Inl e \<Rightarrow> Inl e
      | Inr w_obs \<Rightarrow> Inr (g, mul pc pl, w_obs))))))))"

text \<open>
  The base case of \<^verbatim>\<open>sample\<close>: every label value is balanced in turn; the balanced group
  is appended to \<^verbatim>\<open>G\<close>, its trace to the local list \<^verbatim>\<open>disparities\<close>, and \<^verbatim>\<open>iter\<close> keeps
  the largest step count.
\<close>

fun base_loop ::
  "(nat \<Rightarrow> nat) \<Rightarrow> nat option \<Rightarrow> int \<Rightarrow> frame \<Rightarrow> string \<Rightarrow> mask \<Rightarrow> int list \<Rightarrow> frame list
     \<Rightarrow> rat list list \<Rightarrow> nat \<Rightarrow> nat \<Rightarrow> error + (frame list \<times> rat list list \<times> nat \<times> nat)" where
  "base_loop rng round_level stop d label cond [] G disparities iter pos =
     Inr (G, disparities, iter, pos)"
| "base_loop rng round_level stop d label cond (l # ls) G disparities iter pos =
     (case cell_weights d label cond l of
        Inl e \<Rightarrow> Inl e
      | Inr (g, w_exp, w_obs) \<Rightarrow>
          (case balance_set rng w_exp w_obs g d round_level stop pos of
             Inl e \<Rightarrow> Inl e
           | Inr (g_new, disp, k, pos') \<Rightarrow>
               base_loop rng round_level stop d label cond ls
                 (G @ [g_new]) (disparities @ [disp]) (max iter k) pos'))"

text \<open>\<^verbatim>\<open>limit = 1; for s in s_vars: limit *= len(np.unique(d[s]))\<close>\<close>

fun limit_loop :: "frame \<Rightarrow> string list \<Rightarrow> nat \<Rightarrow> error + nat" where
  "limit_loop d [] limit = Inr limit"
| "limit_loop d (s # ss) limit =
     (case getitem d s of
        Inl e \<Rightarrow> Inl e
      | Inr xs \<Rightarrow> limit_loop d ss (limit * length (np_unique xs)))"

text \<open>
  \<^verbatim>\<open>.sample(frac=1, random_state=2)\<close>: the shuffle with a fixed seed. The permutation the
  seeded generator draws for \<open>n\<close> rows is the parameter \<open>perm\<close>.
\<close>

definition df_shuffle :: "(nat \<Rightarrow> nat list) \<Rightarrow> frame \<Rightarrow> frame" where
  "df_shuffle perm df = df\<lparr>rows := map (\<lambda>j. rows df ! j) (perm (length (rows df)))\<rparr>"

text \<open>
  \<^verbatim>\<open>G.pop().append([g for g in G]).sample(frac=1, random_state=2)\<close>: the last group,
  followed by the others in order, shuffled. \<^verbatim>\<open>pop\<close> fails on an empty list.
\<close>

definition assemble :: "(nat \<Rightarrow> nat list) \<Rightarrow> frame list \<Rightarrow> error + frame" where
  "assemble perm G =
     (if G = [] then Inl IndexError
      else Inr (df_shuffle perm
             ((last G)\<lparr>rows := rows (last G) @ concat (map rows (butlast G))\<rparr>)))"

text \<open>
  \<^verbatim>\<open>sample\<close> returns either the pair \<^verbatim>\<open>(G, iter)\<close> or the triple
  \<^verbatim>\<open>(DataFrame, disparities, iter)\<close>.
\<close>

datatype sample_result = Partial "frame list" nat | Assembled frame "rat list list" nat

text \<open>
  \<^verbatim>\<open>sample(d, s_vars, label, round_level, debug, i, G, cond, stop)\<close>. Both recursive calls
  receive \<^verbatim>\<open>G.copy()\<close>, and a caller unpacks their results as pairs, which fails on a
  triple.
\<close>

function sample ::
  "(nat \<Rightarrow> nat) \<Rightarrow> (nat \<Rightarrow> nat list) \<Rightarrow> nat option \<Rightarrow> int \<Rightarrow> frame \<Rightarrow> string list \<Rightarrow> string \<Rightarrow> nat
     \<Rightarrow> frame list \<Rightarrow> mask \<Rightarrow> nat \<Rightarrow> error + (sample_result \<times> nat)" where
  "sample rng perm round_level stop d s_vars label i G cond pos =
     (if i = length s_vars then
        (case getitem d label of
           Inl e \<Rightarrow> Inl e
         | Inr ys \<Rightarrow>
             (case base_loop rng round_level stop d label cond (np_unique ys) G [] 0 pos of
                Inl e \<Rightarrow> Inl e
              | Inr (G', disparities, iter, pos') \<Rightarrow> Inr (Partial G' iter, pos')))
      else if length s_vars < i then Inl IndexError
      else
        (case getitem d (s_vars ! i) of
           Inl e \<Rightarrow> Inl e
         | Inr xs \<Rightarrow>
        (case sample rng perm round_level stop d s_vars label (i + 1) G
                (mask_and cond (series_eq xs 0)) pos of
           Inl e \<Rightarrow> Inl e
         | Inr (Assembled df disparities iter, pos1) \<Rightarrow> Inl ValueError
         | Inr (Partial G1 k1, pos1) \<Rightarrow>
        (case sample rng perm round_level stop d s_vars label (i + 1) G
                (mask_and cond (series_eq xs 1)) pos1 of
           Inl e \<Rightarrow> Inl e
         | Inr (Assembled df disparities iter, pos2) \<Rightarrow> Inl ValueError
         | Inr (Partial G2 k2, pos2) \<Rightarrow>
        (case limit_loop d s_vars 1 of
           Inl e \<Rightarrow> Inl e
         | Inr limit \<Rightarrow>
        (case getitem d label of
           Inl e \<Rightarrow> Inl e
         | Inr ys \<Rightarrow>
             if length (G @ G1 @ G2) = limit * length (np_unique ys) then
               (case assemble perm (G @ G1 @ G2) of
                  Inl e \<Rightarrow> Inl e
                | Inr df \<Rightarrow> Inr (Assembled df [] (max 0 (max k1 k2)), pos2))
             else Inr (Partial (G @ G1 @ G2) (max 0 (max k1 k2)), pos2)))))))"
  by pat_completeness auto

section \<open>The class DEMV\<close>

record demv =
  round_level :: "nat option"
  debug :: bool
  stop :: int
  iter :: nat
  disparities :: "rat list list option"

text \<open>\<^verbatim>\<open>__init__\<close>; the attribute \<^verbatim>\<open>disparities\<close> does not exist before the first fit.\<close>

definition DEMV_init :: "nat option \<Rightarrow> bool \<Rightarrow> int \<Rightarrow> demv" where
  "DEMV_init rl dbg stp =
     \<lparr>round_level = rl, debug = dbg, stop = stp, iter = 0, disparities = None\<rparr>"

text \<open>
  \<^verbatim>\<open>fit_transform\<close> unpacks the result of \<^verbatim>\<open>sample\<close> as a triple, stores the traces and
  the iteration count on the object and returns the new dataset.
\<close>

definition fit_transform ::
  "(nat \<Rightarrow> nat) \<Rightarrow> (nat \<Rightarrow> nat list) \<Rightarrow> demv \<Rightarrow> frame \<Rightarrow> string list \<Rightarrow> string \<Rightarrow> nat
     \<Rightarrow> error + (frame \<times> demv \<times> nat)" where
  "fit_transform rng perm self dataset protected_attrs label_name pos =
     (case sample rng perm (round_level self) (stop self) dataset protected_attrs label_name
             0 [] PyTrue pos of
        Inl e \<Rightarrow> Inl e
      | Inr (Partial G it, pos') \<Rightarrow> Inl ValueError
      | Inr (Assembled df_new disps it, pos') \<Rightarrow>
          Inr (df_new, self\<lparr>disparities := Some disps, iter := it\<rparr>, pos'))"

definition get_iters :: "demv \<Rightarrow> nat" where
  "get_iters self = iter self"

section \<open>Cells of the partition\<close>

text \<open>
  The protected-attribute combinations, in the order in which the recursion visits them
  (value \<open>0\<close> before value \<open>1\<close>, first attribute outermost), and the rows that satisfy a
  combination.
\<close>

fun combos :: "nat \<Rightarrow> int list list" where
  "combos 0 = [[]]"
| "combos (Suc k) = map ((#) 0) (combos k) @ map ((#) 1) (combos k)"

definition holds :: "string list \<Rightarrow> int list \<Rightarrow> row \<Rightarrow> bool" where
  "holds attrs c r = list_all2 (\<lambda>s v. cells r s = v) attrs c"

text \<open>The label values observed in the dataset.\<close>

definition labels :: "frame \<Rightarrow> string \<Rightarrow> int list" where
  "labels d label = np_unique (map (\<lambda>r. cells r label) (rows d))"

text \<open>A cell is a combination with a label value; \<open>all_cells\<close> lists the \<open>2^k \<times> L\<close> cells.\<close>

definition all_cells :: "frame \<Rightarrow> string list \<Rightarrow> string \<Rightarrow> (int list \<times> int) list" where
  "all_cells d attrs label = List.product (combos (length attrs)) (labels d label)"

definition in_cell :: "string list \<Rightarrow> string \<Rightarrow> int list \<times> int \<Rightarrow> row \<Rightarrow> bool" where
  "in_cell attrs label cl r \<longleftrightarrow> holds attrs (fst cl) r \<and> cells r label = snd cl"

definition cell_rows :: "frame \<Rightarrow> string list \<Rightarrow> string \<Rightarrow> int list \<times> int \<Rightarrow> row list" where
  "cell_rows d attrs label cl = filter (in_cell attrs label cl) (rows d)"

text \<open>
  The weights of a group as the specification words them, for the rows that satisfy a
  condition \<open>Q\<close> and carry the label value \<open>l\<close>: the expected weight is the product of the
  two marginal row-count fractions, the observed weight is the group's own fraction,
  each quotient and the product computed in double arithmetic.
\<close>

definition group_of :: "frame \<Rightarrow> string \<Rightarrow> (row \<Rightarrow> bool) \<Rightarrow> int \<Rightarrow> frame" where
  "group_of d label Q l = d\<lparr>rows := filter (\<lambda>r. Q r \<and> cells r label = l) (rows d)\<rparr>"

definition spec_w_exp :: "frame \<Rightarrow> string \<Rightarrow> (row \<Rightarrow> bool) \<Rightarrow> int \<Rightarrow> rat" where
  "spec_w_exp d label Q l =
     dbl (dbl (of_nat (length (filter Q (rows d))) / of_nat (length (rows d))) *
          dbl (of_nat (length (filter (\<lambda>r. cells r label = l) (rows d))) / of_nat (length (rows d))))"

definition spec_w_obs :: "frame \<Rightarrow> string \<Rightarrow> (row \<Rightarrow> bool) \<Rightarrow> int \<Rightarrow> rat" where
  "spec_w_obs d label Q l =
     dbl (of_nat (length (filter (\<lambda>r. Q r \<and> cells r label = l) (rows d))) / of_nat (length (rows d)))"

text \<open>
  The specification's view of the Partition Driver: the groups of a list of (condition,
  label value) pairs are handed to the Group Balancer one after the other; the balanced
  groups, their traces and the largest step count are collected.
\<close>

fun balance_groups ::
  "(nat \<Rightarrow> nat) \<Rightarrow> nat option \<Rightarrow> int \<Rightarrow> frame \<Rightarrow> string \<Rightarrow> ((row \<Rightarrow> bool) \<times> int) list \<Rightarrow> nat
     \<Rightarrow> error + (frame list \<times> rat list list \<times> nat \<times> nat)" where
  "balance_groups rng rl stp d label [] pos = Inr ([], [], 0, pos)"
| "balance_groups rng rl stp d label ((Q, l) # qs) pos =
     (case balance_set rng (spec_w_exp d label Q l) (spec_w_obs d label Q l)
             (group_of d label Q l) d rl stp pos of
        Inl e \<Rightarrow> Inl e
      | Inr (g_new, tr, k, pos') \<Rightarrow>
          (case balance_groups rng rl stp d label qs pos' of
             Inl e \<Rightarrow> Inl e
           | Inr (gs, trs, it, pos'') \<Rightarrow> Inr (g_new # gs, tr # trs, max k it, pos'')))"

definition balance_cells ::
  "(nat \<Rightarrow> nat) \<Rightarrow> nat option \<Rightarrow> int \<Rightarrow> frame \<Rightarrow> string list \<Rightarrow> string \<Rightarrow> (int list \<times> int) list \<Rightarrow> nat
     \<Rightarrow> error + (frame list \<times> rat list list \<times> nat \<times> nat)" where
  "balance_cells rng rl stp d attrs label cls pos =
     balance_groups rng rl stp d label (map (\<lambda>cl. (holds attrs (fst cl), snd cl)) cls) pos"

text \<open>
  The cells below a node of the recursion: the rows already satisfy \<open>P\<close>, the attributes
  \<open>ss\<close> are still to be split.
\<close>

definition sub_cells :: "(row \<Rightarrow> bool) \<Rightarrow> string list \<Rightarrow> int list \<Rightarrow> ((row \<Rightarrow> bool) \<times> int) list" where
  "sub_cells P ss ls = List.product (map (\<lambda>c r. P r \<and> holds ss c r) (combos (length ss))) ls"

text \<open>
  The disparity as the specification words it: the ratio of the two weights, rounded to
  the tolerance when one is set.
\<close>

definition spec_disparity :: "nat option \<Rightarrow> rat \<Rightarrow> rat" where
  "spec_disparity rl q = (case rl of None \<Rightarrow> q | Some n \<Rightarrow> py_round q n)"

section \<open>Example datasets\<close>

text \<open>
  Datasets with one protected attribute \<open>A\<close> and the label \<open>Y\<close>, indexed \<open>0, 1, 2, \<dots>\<close> as
  pandas does by default.
\<close>

definition mk_row :: "nat \<Rightarrow> int \<times> int \<Rightarrow> row" where
  "mk_row n ay =
     \<lparr>ix = n, cells = (\<lambda>c. if c = ''A'' then fst ay else if c = ''Y'' then snd ay else 0)\<rparr>"

definition mk_frame :: "(int \<times> int) list \<Rightarrow> frame" where
  "mk_frame ays = \<lparr>columns = [''A'', ''Y''], rows = map2 mk_row [0 ..< length ays] ays\<rparr>"

definition d_even :: frame where
  "d_even = mk_frame [(0, 0), (0, 1), (1, 0), (1, 1)]"

definition d_skew :: frame where
  "d_skew = mk_frame [(0, 0), (0, 1), (0, 1), (0, 1), (1, 0), (1, 0), (1, 0), (1, 1)]"

definition d_over :: frame where
  "d_over = mk_frame [(0, 0), (0, 1), (0, 1), (1, 0), (1, 0), (1, 0), (1, 1), (1, 1)]"

definition d_three :: frame where
  "d_three = mk_frame [(0, 0), (0, 1), (0, 1), (0, 1), (1, 0), (1, 1), (2, 0), (2, 0)]"

definition d_gap :: frame where
  "d_gap = mk_frame [(0, 0), (0, 1), (1, 0)]"

text \<open>
  Fifteen rows in which attribute and label are independent: a third of the rows have
  \<open>A = 1\<close>, three fifths have \<open>Y = 1\<close> and a fifth have both.
\<close>

definition d_indep :: frame where
  "d_indep = mk_frame (replicate 4 (0, 0) @ replicate 6 (0, 1) @ replicate 2 (1, 0) @ replicate 3 (1, 1))"

definition rng0 :: "nat \<Rightarrow> nat" where
  "rng0 n = 0"

definition perm0 :: "nat \<Rightarrow> nat list" where
  "perm0 n = rev [0 ..< n]"

section \<open>Measure of the balancing loop\<close>

text \<open>
  A loop state is consistent when its observed weight and its disparity are the ones
  computed from its group; every state after the first pass is. From a consistent state
  an append leaves the set of index labels unchanged and moves the group size towards
  the bound \<open>2 \<times> w_exp \<times> |tot_df|\<close>, and a drop removes an index label.
\<close>

definition consistent :: "nat option \<Rightarrow> rat \<Rightarrow> frame \<Rightarrow> rat \<Rightarrow> frame \<Rightarrow> rat \<Rightarrow> bool" where
  "consistent rl w_exp tot_df w_obs df disp \<longleftrightarrow>
     truediv (of_nat (len df)) (of_nat (len tot_df)) = Inr w_obs \<and>
     disp_of rl w_exp w_obs = Inr disp"

definition loop_measure :: "nat option \<Rightarrow> rat \<Rightarrow> frame \<Rightarrow> rat \<Rightarrow> frame \<Rightarrow> rat \<Rightarrow> nat \<times> nat \<times> nat" where
  "loop_measure rl w_exp tot_df w_obs df disp =
     (if consistent rl w_exp tot_df w_obs df disp then 0 else 1,
      card (ix ` set (rows df)),
      nat \<lceil>2 * w_exp * of_nat (len tot_df)\<rceil> - len df)"

section \<open>Rounding to a double\<close>

lemma ilog2_le:
  assumes "0 < x"
  shows "2 powi (ilog2 x) \<le> x"
proof (cases "1 \<le> x")
  case True
  then have p: "0 < \<lfloor>x\<rfloor>" by linarith
  from bitlen_bounds [OF p] have b: "2 ^ nat (bitlen \<lfloor>x\<rfloor> - 1) \<le> \<lfloor>x\<rfloor>" by simp
  from p have "1 \<le> bitlen \<lfloor>x\<rfloor>"
    using bitlen_eq_zero_iff [of "\<lfloor>x\<rfloor>"] bitlen_nonneg [of "\<lfloor>x\<rfloor>"] by linarith
  then have "(2::rat) powi (bitlen \<lfloor>x\<rfloor> - 1) = 2 ^ nat (bitlen \<lfloor>x\<rfloor> - 1)"
    by (simp add: power_int_def)
  also have "\<dots> = of_int (2 ^ nat (bitlen \<lfloor>x\<rfloor> - 1))" by simp
  also from b have "\<dots> \<le> of_int \<lfloor>x\<rfloor>" by (simp only: of_int_le_iff)
  also have "\<dots> \<le> x" by simp
  finally show ?thesis using True by (simp add: ilog2_def)
next
  case False
  define n where "n = \<lceil>1 / x\<rceil>"
  from False assms have "1 < 1 / x" by simp
  then have n2: "2 \<le> n" unfolding n_def by linarith
  then have p: "0 < n - 1" by simp
  from bitlen_bounds [OF p] have "n - 1 < 2 ^ nat (bitlen (n - 1))" by simp
  then have "n \<le> 2 ^ nat (bitlen (n - 1))" by simp
  then have "(of_int n :: rat) \<le> of_int (2 ^ nat (bitlen (n - 1)))" by (simp only: of_int_le_iff)
  moreover have "1 / x \<le> of_int n" unfolding n_def by simp
  ultimately have "1 / x \<le> of_int (2 ^ nat (bitlen (n - 1)))" by (rule order_trans [rotated])
  then have "1 / x \<le> 2 ^ nat (bitlen (n - 1))" by simp
  with assms have "1 / 2 ^ nat (bitlen (n - 1)) \<le> x"
    by (simp add: field_simps)
  moreover have "(2::rat) powi (- bitlen (n - 1)) = 1 / 2 ^ nat (bitlen (n - 1))"
    using bitlen_nonneg [of "n - 1"] by (simp add: power_int_def field_simps)
  ultimately show ?thesis using False by (simp add: ilog2_def n_def)
qed

lemma round_half_even_lower: "q - 1 / 2 \<le> of_int (round_half_even q)"
  by (simp add: round_half_even_def Let_def) linarith

lemma round_half_even_le:
  assumes "q \<le> of_int z"
  shows "round_half_even q \<le> z"
proof (cases "\<lfloor>q\<rfloor> = z")
  case True
  with assms have "q = of_int z" by linarith
  then show ?thesis by (simp add: round_half_even_def)
next
  case False
  moreover from assms have "\<lfloor>q\<rfloor> \<le> z" by (simp add: floor_le_iff)
  ultimately have "\<lfloor>q\<rfloor> + 1 \<le> z" by simp
  then show ?thesis by (auto simp: round_half_even_def Let_def)
qed

lemma round_half_even_of_int: "round_half_even (of_int z) = z"
  by (simp add: round_half_even_def)

lemma dbl_zero: "dbl 0 = 0"
  by (simp add: dbl_def)

lemma dbl_one: "dbl 1 = 1"
  by code_simp

lemma dbl_half:
  assumes "0 < x"
  shows "x / 2 \<le> dbl x"
proof -
  define e where "e = ilog2 x - 52"
  define y where "y = x / 2 powi e"
  have pe: "(0::rat) < 2 powi e" by simp
  have "(2::rat) powi (ilog2 x) = 2 powi e * 2 powi 52"
    by (simp add: e_def power_int_diff)
  with ilog2_le [OF assms] have "2 powi e * 2 powi 52 \<le> x" by simp
  then have "(2::rat) powi 52 \<le> y" using pe by (simp add: y_def field_simps)
  then have y1: "1 \<le> y" by simp
  from round_half_even_lower [of y] y1 have "y / 2 \<le> of_int (round_half_even y)" by simp
  then have "y / 2 * 2 powi e \<le> of_int (round_half_even y) * 2 powi e"
    using pe by (simp only: mult_le_cancel_right_pos)
  moreover have "y / 2 * 2 powi e = x / 2" by (simp add: y_def)
  moreover from assms have "dbl x = of_int (round_half_even y) * 2 powi e"
    by (simp add: dbl_def y_def e_def Let_def)
  ultimately show ?thesis by (simp only:)
qed

lemma dbl_neg: "x < 0 \<Longrightarrow> dbl x = - dbl (- x)"
  by (simp add: dbl_def Let_def)

lemma dbl_zero_iff: "0 \<le> x \<Longrightarrow> dbl x = 0 \<longleftrightarrow> x = 0"
  using dbl_half [of x] by (cases "x = 0") (auto simp: dbl_zero)

lemma dbl_pos: "0 < x \<Longrightarrow> 0 < dbl x"
  using dbl_half [of x] by simp

lemma dbl_le_one:
  assumes "x \<le> 1"
  shows "dbl x \<le> 1"
proof (cases "0 < x")
  case False
  then have "x = 0 \<or> x < 0" by auto
  then show ?thesis
  proof
    assume "x = 0" then show ?thesis by (simp add: dbl_zero)
  next
    assume n: "x < 0"
    then have "0 < - x" by simp
    from dbl_half [OF this] n have "0 \<le> dbl (- x)" by simp
    with dbl_neg [OF n] show ?thesis by simp
  qed
next
  case True
  define e where "e = ilog2 x - 52"
  define y where "y = x / 2 powi e"
  have pe: "(0::rat) < 2 powi e" by simp
  from ilog2_le [OF True] assms have le1: "(2::rat) powi (ilog2 x) \<le> 1" by simp
  have "ilog2 x \<le> 0"
  proof (rule ccontr)
    assume "\<not> ilog2 x \<le> 0"
    then have k: "1 \<le> ilog2 x" by simp
    then have "(2::rat) powi (ilog2 x) = 2 ^ nat (ilog2 x)" by (simp add: power_int_def)
    moreover from k have "(2::rat) ^ 1 \<le> 2 ^ nat (ilog2 x)"
      by (intro power_increasing) simp_all
    ultimately show False using le1 by simp
  qed
  then have e0: "e \<le> 0" by (simp add: e_def)
  then have pw: "(2::rat) powi (- e) = of_int (2 ^ nat (- e))" by (simp add: power_int_def)
  have "y = x * 2 powi (- e)" by (simp add: y_def power_int_minus field_simps)
  also from assms have "\<dots> \<le> 2 powi (- e)" by (simp add: mult_le_cancel_right1)
  finally have "y \<le> of_int (2 ^ nat (- e))" by (simp only: pw)
  from round_half_even_le [OF this] have "(of_int (round_half_even y) :: rat) \<le> of_int (2 ^ nat (- e))"
    by (simp only: of_int_le_iff)
  then have "of_int (round_half_even y) \<le> (2::rat) powi (- e)" by (simp only: pw)
  then have "of_int (round_half_even y) * 2 powi e \<le> (1::rat)"
    by (simp add: power_int_minus field_simps)
  moreover from True have "dbl x = of_int (round_half_even y) * 2 powi e"
    by (simp add: dbl_def y_def e_def Let_def)
  ultimately show ?thesis by simp
qed

lemma py_round_one: "py_round 1 n = 1"
proof -
  have "(10::rat) ^ n = of_int (10 ^ n)" by simp
  then have "round_half_even (1 * 10 ^ n) = 10 ^ n"
    using round_half_even_of_int [of "10 ^ n"] by simp
  then show ?thesis by (simp add: py_round_def dbl_one)
qed

section \<open>Termination of the balancing loop\<close>

lemma balance_step_consistent:
  assumes "balance_step rng rl w_exp tot_df w_obs df pos = Inr (w_obs', df', disp', pos')"
  shows "consistent rl w_exp tot_df w_obs' df' disp'"
  using assms
  by (auto simp: balance_step_def consistent_def split: sum.splits if_splits prod.splits)

lemma df_sample_mem:
  "df_sample rng df pos = Inr (r, pos') \<Longrightarrow> r \<in> set (rows df)"
  by (auto simp: df_sample_def split: if_splits)

lemma balance_step_cases:
  assumes "balance_step rng rl w_exp tot_df w_obs df pos = Inr (w_obs', df', disp', pos')"
  shows "\<exists>q. truediv w_exp w_obs = Inr q \<and>
         ((1 < q \<and> (\<exists>r \<in> set (rows df). df' = df_append df r)) \<or>
          (q < 1 \<and> (\<exists>r \<in> set (rows df). df' = df_drop df r)) \<or>
          (q = 1 \<and> df' = df))"
  using assms
  by (auto simp: balance_step_def split: sum.splits if_splits prod.splits
      dest: df_sample_mem)

lemma disp_of_one:
  "truediv w_exp w_obs = Inr 1 \<Longrightarrow> disp_of rl w_exp w_obs = Inr 1"
  by (simp add: disp_of_def py_round_one split: option.splits)

lemma card_ix_drop:
  assumes "r \<in> set (rows df)"
  shows "card (ix ` set (rows (df_drop df r))) < card (ix ` set (rows df))"
proof -
  have "ix ` set (rows (df_drop df r)) \<subseteq> ix ` set (rows df) - {ix r}"
    by (auto simp: df_drop_def)
  moreover have "ix r \<in> ix ` set (rows df)" using assms by blast
  ultimately have "ix ` set (rows (df_drop df r)) \<subset> ix ` set (rows df)" by blast
  then show ?thesis by (simp add: psubset_card_mono)
qed

lemma card_ix_append:
  assumes "r \<in> set (rows df)"
  shows "ix ` set (rows (df_append df r)) = ix ` set (rows df)"
  using assms by (auto simp: df_append_def)

lemma append_room:
  assumes c: "truediv (of_nat (len df)) (of_nat (len tot_df)) = Inr w_obs"
    and q: "truediv w_exp w_obs = Inr q" and gt: "1 < q"
  shows "len df < nat \<lceil>2 * w_exp * of_nat (len tot_df)\<rceil>"
proof -
  from c have N: "len tot_df \<noteq> 0" and w: "w_obs = dbl (of_nat (len df) / of_nat (len tot_df))"
    by (auto simp: truediv_def split: if_splits)
  from q have nz: "w_obs \<noteq> 0" and q': "q = dbl (w_exp / w_obs)"
    by (auto simp: truediv_def split: if_splits)
  have ge: "(0::rat) \<le> of_nat (len df) / of_nat (len tot_df)" by simp
  with nz w have "(0::rat) < of_nat (len df) / of_nat (len tot_df)"
    using dbl_zero by (cases "(of_nat (len df) / of_nat (len tot_df) :: rat) = 0") auto
  from dbl_half [OF this] have h: "of_nat (len df) / of_nat (len tot_df) / 2 \<le> w_obs"
    and pos: "0 < w_obs" using w \<open>0 < of_nat (len df) / of_nat (len tot_df)\<close> by (simp_all add: dbl_pos)
  from gt q' dbl_le_one [of "w_exp / w_obs"] have "1 < w_exp / w_obs" by force
  with pos have "w_obs < w_exp" by (simp add: less_divide_eq)
  with h have "of_nat (len df) / of_nat (len tot_df) / 2 < w_exp" by simp
  with N have "(of_nat (len df) :: rat) < 2 * w_exp * of_nat (len tot_df)"
    by (simp add: field_simps)
  then have "(of_int (int (len df)) :: rat) < of_int \<lceil>2 * w_exp * of_nat (len tot_df)\<rceil>"
    by (metis le_of_int_ceiling of_int_of_nat_eq order_less_le_trans)
  then have "int (len df) < \<lceil>2 * w_exp * of_nat (len tot_df)\<rceil>" by (simp only: of_int_less_iff)
  then show ?thesis by linarith
qed

lemma balance_step_decreases:
  assumes st: "balance_step rng rl w_exp tot_df w_obs df pos = Inr (w_obs', df', disp', pos')"
    and ne: "disp \<noteq> 1"
  shows "(loop_measure rl w_exp tot_df w_obs' df' disp',
          loop_measure rl w_exp tot_df w_obs df disp)
         \<in> less_than <*lex*> less_than <*lex*> less_than"
proof (cases "consistent rl w_exp tot_df w_obs df disp")
  case False
  with balance_step_consistent [OF st] show ?thesis by (simp add: loop_measure_def)
next
  case True
  note c' = balance_step_consistent [OF st]
  from True have c1: "truediv (of_nat (len df)) (of_nat (len tot_df)) = Inr w_obs"
    and c2: "disp_of rl w_exp w_obs = Inr disp" by (simp_all add: consistent_def)
  from balance_step_cases [OF st] obtain q where q: "truediv w_exp w_obs = Inr q" and
    cs: "(1 < q \<and> (\<exists>r \<in> set (rows df). df' = df_append df r)) \<or>
          (q < 1 \<and> (\<exists>r \<in> set (rows df). df' = df_drop df r)) \<or>
          (q = 1 \<and> df' = df)" by blast
  from cs show ?thesis
  proof (elim disjE conjE bexE)
    fix r assume gt: "1 < q" and r: "r \<in> set (rows df)" and d: "df' = df_append df r"
    have "len df' = Suc (len df)" using d by (simp add: len_def df_append_def)
    with append_room [OF c1 q gt] card_ix_append [OF r] d True c' show ?thesis
      by (simp add: loop_measure_def)
  next
    fix r assume r: "r \<in> set (rows df)" and d: "df' = df_drop df r"
    with card_ix_drop [OF r] True c' show ?thesis by (simp add: loop_measure_def)
  next
    assume "q = 1"
    with disp_of_one [of w_exp w_obs rl] q c2 ne show ?thesis by simp
  qed
qed

termination balance_loop
proof (relation "inv_image (less_than <*lex*> less_than <*lex*> less_than)
    (\<lambda>(rng, rl, k, w_exp, tot_df, w_obs, df, disp, disparity, i, pos).
        loop_measure rl w_exp tot_df w_obs df disp)", goal_cases)
  case 1
  show ?case by (intro wf_inv_image wf_lex_prod wf_less_than)
next
  case (2 rng rl k w_exp tot_df w_obs df disp disparity i pos x2 x y xa ya xb yb)
  then show ?case
    using balance_step_decreases [of rng rl w_exp tot_df w_obs df pos x xa xb yb disp]
    by simp
qed

termination sample
  by (relation "measure (\<lambda>(rng, perm, rl, stp, d, s_vars, label, i, G, cond, pos).
        length s_vars - i)") auto

declare balance_loop.simps [simp del]
declare sample.simps [simp del]

section \<open>The Group Balancer with an unbounded cap\<close>

lemma spec_disparity_consistent:
  assumes "consistent rl w_exp tot_df w_obs df 1"
  shows "spec_disparity rl (dbl (w_exp / dbl (of_nat (len df) / of_nat (len tot_df)))) = 1"
proof -
  from assms have w: "w_obs = dbl (of_nat (len df) / of_nat (len tot_df))"
    and d: "disp_of rl w_exp w_obs = Inr 1"
    by (auto simp: consistent_def truediv_def split: if_splits)
  from d have nz: "w_obs \<noteq> 0"
    by (auto simp: disp_of_def truediv_def split: if_splits)
  have g: "spec_disparity rl (dbl (w_exp / w_obs)) = 1"
  proof (cases rl)
    case None
    with d nz show ?thesis by (simp add: disp_of_def truediv_def spec_disparity_def)
  next
    case (Some n)
    show ?thesis
    proof (cases "n = 0")
      case True
      with d nz Some have "dbl (w_exp / w_obs) = 1" by (simp add: disp_of_def truediv_def)
      with Some show ?thesis by (simp only: spec_disparity_def option.case py_round_one)
    next
      case False
      with d nz Some show ?thesis by (simp add: disp_of_def truediv_def spec_disparity_def)
    qed
  qed
  then show ?thesis by (simp only: w)
qed

lemma balance_loop_unbounded:
  assumes "balance_loop rng rl k w_exp tot_df w_obs df disp disparity i pos = Inr (df', disparity', i', pos')"
    and "k < 0"
    and "consistent rl w_exp tot_df w_obs df disp"
    and "disparity \<noteq> []" and "last disparity = disp"
  shows "consistent rl w_exp tot_df (dbl (of_nat (len df') / of_nat (len tot_df))) df' 1 \<and>
         disparity' \<noteq> [] \<and> last disparity' = 1"
  using assms
proof (induction rng rl k w_exp tot_df w_obs df disp disparity i pos rule: balance_loop.induct)
  case (1 rng rl k w_exp tot_df w_obs df disp disparity i pos)
  show ?case
  proof (cases "disp \<noteq> 1 \<and> int i \<noteq> k")
    case False
    with \<open>k < 0\<close> have d: "disp = 1" by auto
    with "1.prems"(1) have "df' = df" "disparity' = disparity"
      by (simp_all add: balance_loop.simps)
    moreover from "1.prems"(3) have "w_obs = dbl (of_nat (len df) / of_nat (len tot_df))"
      by (auto simp: consistent_def truediv_def split: if_splits)
    ultimately show ?thesis using "1.prems" d by simp
  next
    case True
    with "1.prems"(1) obtain w_obs1 df1 disp1 pos1 where
      st: "balance_step rng rl w_exp tot_df w_obs df pos = Inr (w_obs1, df1, disp1, pos1)" and
      rec: "balance_loop rng rl k w_exp tot_df w_obs1 df1 disp1 (disparity @ [disp1]) (i + 1) pos1
              = Inr (df', disparity', i', pos')"
      by (subst (asm) balance_loop.simps) (auto split: sum.splits)
    show ?thesis
      by (rule "1.IH" [OF True st refl refl refl rec \<open>k < 0\<close> balance_step_consistent [OF st]])
        simp_all
  qed
qed

text \<open>
  C1: when the iteration cap is the unbounded sentinel \<open>-1\<close> and \<^verbatim>\<open>balance_set\<close> returns
  for a group whose observed weight is its share of the full dataset, the last disparity
  of the trace is \<open>1\<close>, and it is the disparity (the quotient of the expected weight by
  the observed weight, rounded when a tolerance is set) of the returned group's row count
  over the full dataset's row count, all in double arithmetic.
\<close>

theorem balance_set_unbounded_converges:
  assumes ret: "balance_set rng w_exp w_obs df tot_df rl (- 1) pos = Inr (df', disparity, i, pos')"
    and w: "truediv (of_nat (len df)) (of_nat (len tot_df)) = Inr w_obs"
  shows "disparity \<noteq> [] \<and> last disparity = 1 \<and>
         last disparity =
           spec_disparity rl (dbl (w_exp / dbl (of_nat (len df') / of_nat (len tot_df))))"
proof -
  from ret obtain disp where d: "disp_of rl w_exp w_obs = Inr disp" and
    lp: "balance_loop rng rl (- 1) w_exp tot_df w_obs df disp [disp] 0 pos = Inr (df', disparity, i, pos')"
    by (auto simp: balance_set_def split: sum.splits)
  from w d have c: "consistent rl w_exp tot_df w_obs df disp" by (simp add: consistent_def)
  from balance_loop_unbounded [OF lp _ c] have
    c': "consistent rl w_exp tot_df (dbl (of_nat (len df') / of_nat (len tot_df))) df' 1"
    and l: "disparity \<noteq> []" "last disparity = 1" by simp_all
  from spec_disparity_consistent [OF c'] l show ?thesis by simp
qed

theorem balance_set_unbounded_converges_witness:
  "\<exists>df'. balance_set rng0 (1 / 4) (3 / 8) (group_of d_skew ''Y'' (holds [''A''] [0]) 1) d_skew (Some 1) (- 1) 0
            = Inr (df', [dbl (7 / 10), 1], 1, 1) \<and>
     truediv (of_nat (len (group_of d_skew ''Y'' (holds [''A''] [0]) 1))) (of_nat (len d_skew)) = Inr (3 / 8) \<and>
     [dbl (7 / 10), 1] \<noteq> [] \<and> last [dbl (7 / 10), 1] = 1 \<and>
     last [dbl (7 / 10), 1] =
       spec_disparity (Some 1) (dbl ((1 / 4) / dbl (of_nat (len df') / of_nat (len d_skew))))"
proof -
  have "case balance_set rng0 (1 / 4) (3 / 8) (group_of d_skew ''Y'' (holds [''A''] [0]) 1) d_skew (Some 1) (- 1) 0 of
          Inl e \<Rightarrow> False
        | Inr (df', tr, i, p) \<Rightarrow> tr = [dbl (7 / 10), 1] \<and> i = 1 \<and> p = 1"
    by code_simp
  then obtain df' where h1:
    "balance_set rng0 (1 / 4) (3 / 8) (group_of d_skew ''Y'' (holds [''A''] [0]) 1) d_skew (Some 1) (- 1) 0
       = Inr (df', [dbl (7 / 10), 1], 1, 1)"
    by (auto split: sum.splits)
  have h2: "truediv (of_nat (len (group_of d_skew ''Y'' (holds [''A''] [0]) 1))) (of_nat (len d_skew)) = Inr (3 / 8)"
    by code_simp
  from balance_set_unbounded_converges [OF h1 h2] h1 h2 show ?thesis by blast
qed

section \<open>Masks and row conditions\<close>

lemma select_map: "map fst (filter snd (zip xs (map Q xs))) = filter Q xs"
  by (induction xs) auto

lemma map2_conj: "map2 (\<and>) (map Q xs) (map R xs) = map (\<lambda>x. Q x \<and> R x) xs"
  by (induction xs) auto

lemma getitem_mask_map: "getitem_mask d (Mask (map Q (rows d))) = Inr (d\<lparr>rows := filter Q (rows d)\<rparr>)"
  by (simp add: select_map)

lemma cell_weights_spec:
  assumes "label \<in> set (columns d)" and "rows d \<noteq> []" and "cond = Mask (map Q (rows d))"
  shows "cell_weights d label cond l =
           Inr (group_of d label Q l, spec_w_exp d label Q l, spec_w_obs d label Q l)"
  using assms
  by (simp add: cell_weights_def getitem_def series_eq_def map2_conj select_map truediv_def len_def
      group_of_def spec_w_exp_def spec_w_obs_def mul_def comp_def)

section \<open>Weights handed to the Group Balancer\<close>



text \<open>
  On \<open>d_indep\<close> the two weights of the cell \<open>A = 1, Y = 1\<close> are the doubles
  \<open>0.19999999999999998\<close> and \<open>0.2\<close>, and their quotient is \<open>0.9999999999999999\<close>.
\<close>

lemma d_indep_weights:
  "spec_w_exp d_indep ''Y'' (\<lambda>r. cells r ''A'' = 1) 1 = 7205759403792793 / 36028797018963968 \<and>
   spec_w_obs d_indep ''Y'' (\<lambda>r. cells r ''A'' = 1) 1 = 3602879701896397 / 18014398509481984 \<and>
   truediv (spec_w_exp d_indep ''Y'' (\<lambda>r. cells r ''A'' = 1) 1)
           (spec_w_obs d_indep ''Y'' (\<lambda>r. cells r ''A'' = 1) 1)
     = Inr (9007199254740991 / 9007199254740992)"
  by code_simp

section \<open>No protected attributes\<close>

text \<open>
  C10, as claimed: with an empty list of protected attributes the sampler returns the
  pair \<^verbatim>\<open>(G, iter)\<close>, which \<^verbatim>\<open>fit_transform\<close> cannot unpack. On \<open>d_even\<close> it returns nothing:
  in the first pass of the base case \<^verbatim>\<open>d[cond]\<close> is \<^verbatim>\<open>d[True]\<close>, which raises \<^verbatim>\<open>KeyError\<close>.
\<close>

theorem no_attrs_sampler_raises:
  "(case sample rng0 perm0 None (- 1) d_even [] ''Y'' 0 [] PyTrue 0 of
      Inl e \<Rightarrow> e = KeyError | Inr s \<Rightarrow> False) \<and>
   (case fit_transform rng0 perm0 (DEMV_init None False (- 1)) d_even [] ''Y'' 0 of
      Inl e \<Rightarrow> e = KeyError | Inr s \<Rightarrow> False)"
  by code_simp

lemma base_loop_PyTrue:
  "base_loop rng rl stp d label PyTrue (l # ls) G ds it pos = Inl KeyError"
  by (simp add: cell_weights_def getitem_def split: sum.splits)

lemma np_unique_Nil_iff: "np_unique xs = [] \<longleftrightarrow> xs = []"
proof -
  have "set (np_unique xs) = set xs" by (simp add: np_unique_def)
  then show ?thesis by (metis set_empty)
qed

lemma sample_no_attrs:
  "sample rng perm rl stp d [] label 0 G PyTrue pos =
     (if label \<in> set (columns d) \<and> rows d = [] then Inr (Partial G 0, pos) else Inl KeyError)"
proof (cases "label \<in> set (columns d)")
  case False
  then show ?thesis by (subst sample.simps) (simp add: getitem_def)
next
  case True
  show ?thesis
  proof (cases "rows d")
    case Nil
    with True show ?thesis by (subst sample.simps) (simp add: getitem_def np_unique_def)
  next
    case (Cons r rs)
    then have "np_unique (map (\<lambda>r. cells r label) (rows d)) \<noteq> []"
      by (simp add: np_unique_Nil_iff)
    then obtain l ls where "np_unique (map (\<lambda>r. cells r label) (rows d)) = l # ls"
      by (cases "np_unique (map (\<lambda>r. cells r label) (rows d))") auto
    with True Cons show ?thesis
      by (subst sample.simps) (simp add: getitem_def base_loop_PyTrue del: base_loop.simps)
  qed
qed

text \<open>
  C10, amended: with an empty list of protected attributes \<^verbatim>\<open>fit_transform\<close> never returns
  a dataset. The sampler is in its base case at once. When the dataset has rows and the
  label column, the first pass raises \<^verbatim>\<open>KeyError\<close> at \<^verbatim>\<open>d[True]\<close>; when the label column is
  missing, \<^verbatim>\<open>d[label]\<close> raises \<^verbatim>\<open>KeyError\<close>; only on a dataset without rows does the sampler
  return the pair \<^verbatim>\<open>(G, iter)\<close>, which \<^verbatim>\<open>fit_transform\<close> fails to unpack with \<^verbatim>\<open>ValueError\<close>.
\<close>

theorem fit_transform_no_attrs:
  "sample rng perm rl stp d [] label 0 G PyTrue pos =
     (if label \<in> set (columns d) \<and> rows d = [] then Inr (Partial G 0, pos) else Inl KeyError) \<and>
   fit_transform rng perm self d [] label pos =
     Inl (if label \<in> set (columns d) \<and> rows d = [] then ValueError else KeyError)"
  by (simp add: fit_transform_def sample_no_attrs)

theorem fit_transform_no_attrs_witness:
  "''Y'' \<in> set (columns d_even) \<and> rows d_even \<noteq> [] \<and>
   sample rng0 perm0 None (- 1) d_even [] ''Y'' 0 [] PyTrue 0 = Inl KeyError \<and>
   fit_transform rng0 perm0 (DEMV_init None False (- 1)) d_even [] ''Y'' 0 = Inl KeyError"
proof -
  have h1: "''Y'' \<in> set (columns d_even)" by (simp add: d_even_def mk_frame_def)
  have h2: "rows d_even \<noteq> []" by (simp add: d_even_def mk_frame_def)
  from fit_transform_no_attrs [of rng0 perm0 None "- 1" d_even "''Y''" "[]" 0 "DEMV_init None False (- 1)"]
    h1 h2 show ?thesis by simp
qed

section \<open>The disparity traces\<close>

text \<open>
  C6: the claim that a successful call returns one disparity trace per balanced group
  fails on the code. On \<open>d_skew\<close> the call succeeds after one balancing step in each of
  the four groups, the Group Balancer records the four traces below, and the object
  receives the empty list: the base case appends the traces to a local list that it
  does not return.
\<close>

theorem fit_transform_loses_traces:
  "(case fit_transform rng0 perm0 (DEMV_init None False (- 1)) d_skew [''A''] ''Y'' 0 of
      Inl e \<Rightarrow> False
    | Inr (out, self', pos') \<Rightarrow> disparities self' = Some [] \<and> iter self' = 1) \<and>
   (case balance_cells rng0 None (- 1) d_skew [''A''] ''Y'' (all_cells d_skew [''A''] ''Y'') 0 of
      Inl e \<Rightarrow> False
    | Inr (gs, trs, it, pos') \<Rightarrow> trs = [[2, 1], [dbl (2 / 3), 1], [dbl (2 / 3), 1], [2, 1]])"
  by code_simp

section \<open>Size of a balancing step\<close>

text \<open>
  C4: the claim that every pass changes the group size by exactly one row fails on the
  code. In the cell \<open>A = 0, Y = 0\<close> of \<open>d_over\<close> the first pass appends a copy of the only
  row, which keeps the index label; the second pass samples one row and drops its index
  label, which removes both copies: the size goes from two to zero and the call ends in
  \<^verbatim>\<open>ZeroDivisionError\<close>.
\<close>

theorem drop_removes_all_copies:
  "len (group_of d_over ''Y'' (holds [''A''] [0]) 0) = 1 \<and>
   (case balance_step rng0 None (3 / 16) d_over (1 / 8) (group_of d_over ''Y'' (holds [''A''] [0]) 0) 0 of
      Inl e \<Rightarrow> False
    | Inr (w_obs', df', disp', pos') \<Rightarrow>
        len df' = 2 \<and> w_obs' = 1 / 4 \<and> disp' = 3 / 4 \<and>
        (case df_sample rng0 df' pos' of
           Inl e \<Rightarrow> False
         | Inr (r, pos'') \<Rightarrow> len (df_drop df' r) = 0) \<and>
        (case balance_step rng0 None (3 / 16) d_over w_obs' df' pos' of
           Inl e \<Rightarrow> e = ZeroDivisionError
         | Inr s \<Rightarrow> False)) \<and>
   (case fit_transform rng0 perm0 (DEMV_init None False (- 1)) d_over [''A''] ''Y'' 0 of
      Inl e \<Rightarrow> e = ZeroDivisionError
    | Inr s \<Rightarrow> False)"
  by code_simp

text \<open>An append adds one row; a drop removes one row when the index labels are distinct.\<close>

lemma df_append_len: "len (df_append df r) = len df + 1"
  by (simp add: len_def df_append_def)

lemma filter_neq_distinct:
  "distinct (map f xs) \<Longrightarrow> x \<in> set xs \<Longrightarrow> length (filter (\<lambda>y. f y \<noteq> f x) xs) + 1 = length xs"
proof (induction xs)
  case Nil
  then show ?case by simp
next
  case (Cons a xs)
  show ?case
  proof (cases "f a = f x")
    case True
    from Cons.prems have "f a \<notin> f ` set xs" by simp
    with True have "\<forall>y \<in> set xs. f y \<noteq> f x" by (metis imageI)
    then have "filter (\<lambda>y. f y \<noteq> f x) xs = xs" by (simp add: filter_id_conv)
    with True show ?thesis by simp
  next
    case False
    with Cons show ?thesis by auto
  qed
qed

lemma df_drop_len_distinct:
  "distinct (map ix (rows df)) \<Longrightarrow> r \<in> set (rows df) \<Longrightarrow> len (df_drop df r) + 1 = len df"
  using filter_neq_distinct [of ix "rows df" r] by (simp add: len_def df_drop_def)

section \<open>The cells below a node\<close>

lemma product_append: "List.product (xs @ ys) zs = List.product xs zs @ List.product ys zs"
  by (induction xs) auto

lemma length_combos: "length (combos k) = 2 ^ k"
  by (induction k) auto

lemma length_sub_cells: "length (sub_cells P ss ls) = 2 ^ length ss * length ls"
  by (simp add: sub_cells_def length_combos)

lemma sub_cells_Nil: "sub_cells P [] ls = map (Pair P) ls"
  by (simp add: sub_cells_def holds_def)

lemma sub_cells_Cons:
  "sub_cells P (s # ss) ls =
     sub_cells (\<lambda>r. P r \<and> cells r s = 0) ss ls @ sub_cells (\<lambda>r. P r \<and> cells r s = 1) ss ls"
  by (simp add: sub_cells_def product_append holds_def comp_def conj_assoc)

lemma all_cells_sub_cells:
  "map (\<lambda>cl. (holds attrs (fst cl), snd cl)) (all_cells d attrs label)
     = sub_cells (\<lambda>r. True) attrs (labels d label)"
proof -
  have "map (\<lambda>cl. (f (fst cl), snd cl)) (List.product xs ys) = List.product (map f xs) ys"
    for f :: "int list \<Rightarrow> row \<Rightarrow> bool" and xs and ys :: "int list"
    by (induction xs) (auto simp: comp_def)
  then show ?thesis by (simp add: all_cells_def sub_cells_def)
qed

section \<open>Balancing a list of groups\<close>

lemma balance_groups_append:
  "balance_groups rng rl stp d label (xs @ ys) pos =
     (case balance_groups rng rl stp d label xs pos of
        Inl e \<Rightarrow> Inl e
      | Inr (g1, t1, k1, p1) \<Rightarrow>
          (case balance_groups rng rl stp d label ys p1 of
             Inl e \<Rightarrow> Inl e
           | Inr (g2, t2, k2, p2) \<Rightarrow> Inr (g1 @ g2, t1 @ t2, max k1 k2, p2)))"
proof (induction xs arbitrary: pos)
  case Nil
  show ?case by (simp split: sum.splits)
next
  case (Cons q xs)
  obtain Q l where q: "q = (Q, l)" by (cases q)
  show ?case
    by (simp add: q Cons.IH max.assoc split: sum.splits prod.splits)
qed

lemma balance_groups_length:
  "balance_groups rng rl stp d label qs pos = Inr (gs, trs, it, pos') \<Longrightarrow>
     length gs = length qs \<and> length trs = length qs"
proof (induction qs arbitrary: pos gs trs it)
  case Nil
  then show ?case by simp
next
  case (Cons q qs)
  obtain Q l where q: "q = (Q, l)" by (cases q)
  from Cons.prems Cons.IH show ?case
    by (auto simp: q split: sum.splits prod.splits)
qed

lemma balance_set_empty_group:
  "balance_set rng w_exp 0 df tot_df rl stp pos = Inl ZeroDivisionError"
  by (simp add: balance_set_def disp_of_def truediv_def)

lemma spec_w_obs_zero_iff:
  "spec_w_obs d label Q l = 0 \<longleftrightarrow> rows (group_of d label Q l) = []"
proof -
  let ?g = "filter (\<lambda>r. Q r \<and> cells r label = l) (rows d)"
  have "length ?g \<le> length (rows d)" by simp
  then have "(of_nat (length ?g) / of_nat (length (rows d)) :: rat) = 0 \<longleftrightarrow> ?g = []"
    by (cases "?g = []") auto
  moreover have "(0::rat) \<le> of_nat (length ?g) / of_nat (length (rows d))" by simp
  ultimately show ?thesis
    by (simp add: spec_w_obs_def group_of_def dbl_zero_iff)
qed

lemma balance_groups_nonempty:
  "balance_groups rng rl stp d label qs pos = Inr (gs, trs, it, pos') \<Longrightarrow>
     \<forall>q \<in> set qs. rows (group_of d label (fst q) (snd q)) \<noteq> []"
proof (induction qs arbitrary: pos gs trs it)
  case Nil
  then show ?case by simp
next
  case (Cons q qs)
  obtain Q l where q: "q = (Q, l)" by (cases q)
  from Cons.prems have "spec_w_obs d label Q l \<noteq> 0"
    by (auto simp: q balance_set_empty_group split: sum.splits)
  then have "rows (group_of d label Q l) \<noteq> []" by (simp add: spec_w_obs_zero_iff)
  moreover from Cons.prems Cons.IH have "\<forall>q \<in> set qs. rows (group_of d label (fst q) (snd q)) \<noteq> []"
    by (auto simp: q split: sum.splits prod.splits)
  ultimately show ?case by (simp add: q)
qed

lemma base_loop_groups:
  assumes "label \<in> set (columns d)" and "cond = Mask (map Q (rows d))"
  shows "base_loop rng rl stp d label cond ls G ds it pos =
           (case balance_groups rng rl stp d label (map (Pair Q) ls) pos of
              Inl e \<Rightarrow> Inl e
            | Inr (gs, trs, k, pos') \<Rightarrow> Inr (G @ gs, ds @ trs, max it k, pos'))"
proof (induction ls arbitrary: G ds it pos)
  case Nil
  show ?case by simp
next
  case (Cons l ls)
  show ?case
  proof (cases "rows d = []")
    case True
    with assms have "cell_weights d label cond l = Inl ZeroDivisionError"
      by (simp add: cell_weights_def getitem_def truediv_def len_def)
    moreover from True have "spec_w_obs d label Q l = 0" by (simp add: spec_w_obs_def dbl_zero)
    ultimately show ?thesis by (simp add: balance_set_empty_group)
  next
    case False
    from cell_weights_spec [OF assms(1) False assms(2), of l] show ?thesis
      by (simp add: Cons.IH max.assoc split: sum.splits prod.splits)
  qed
qed

lemma getitem_Inr: "getitem d c = Inr xs \<Longrightarrow> c \<in> set (columns d) \<and> xs = map (\<lambda>r. cells r c) (rows d)"
  by (auto simp: getitem_def split: if_splits)

lemma mask_and_map:
  "mask_and (Mask (map P (rows d))) (series_eq (map (\<lambda>r. cells r s) (rows d)) v)
     = Mask (map (\<lambda>r. P r \<and> cells r s = v) (rows d))"
  by (simp add: series_eq_def map2_conj comp_def)

text \<open>
  An inner call that returns a pair has balanced the cells below its node, in order.
\<close>

lemma sample_partial_sound:
  assumes "length s_vars - i = m" and "i \<le> length s_vars"
    and "sample rng perm rl stp d s_vars label i [] (Mask (map P (rows d))) pos = Inr (Partial G' it, pos')"
  shows "\<exists>trs. balance_groups rng rl stp d label (sub_cells P (drop i s_vars) (labels d label)) pos
           = Inr (G', trs, it, pos')"
  using assms
proof (induction m arbitrary: i P pos G' it pos')
  case 0
  then have i: "i = length s_vars" by simp
  from "0.prems"(3) obtain ys dsp where
    ys: "getitem d label = Inr ys" and
    bl: "base_loop rng rl stp d label (Mask (map P (rows d))) (np_unique ys) [] [] 0 pos = Inr (G', dsp, it, pos')"
    by (subst (asm) sample.simps) (auto simp: i split: sum.splits prod.splits)
  from getitem_Inr [OF ys] have lab: "label \<in> set (columns d)" and l: "labels d label = np_unique ys"
    by (simp_all add: labels_def)
  from bl base_loop_groups [OF lab refl, of rng rl stp P "np_unique ys" "[]" "[]" 0 pos]
  have "balance_groups rng rl stp d label (map (Pair P) (np_unique ys)) pos = Inr (G', dsp, it, pos')"
    by (auto split: sum.splits prod.splits)
  then show ?case by (auto simp: i sub_cells_Nil l)
next
  case (Suc m)
  then have lt: "i < length s_vars" by simp
  define s where "s = s_vars ! i"
  from lt have dr: "drop i s_vars = s # drop (Suc i) s_vars"
    by (simp add: s_def Cons_nth_drop_Suc)
  from Suc.prems(3) lt obtain xs G1 k1 pos1 G2 k2 where
    xs: "getitem d s = Inr xs" and
    c1: "sample rng perm rl stp d s_vars label (i + 1) [] (mask_and (Mask (map P (rows d))) (series_eq xs 0)) pos
           = Inr (Partial G1 k1, pos1)" and
    c2: "sample rng perm rl stp d s_vars label (i + 1) [] (mask_and (Mask (map P (rows d))) (series_eq xs 1)) pos1
           = Inr (Partial G2 k2, pos')" and
    G': "G' = G1 @ G2" and it: "it = max k1 k2"
    by (subst (asm) sample.simps)
      (auto simp: s_def split: sum.splits prod.splits sample_result.splits if_splits)
  from getitem_Inr [OF xs] have xs': "xs = map (\<lambda>r. cells r s) (rows d)" by simp
  have m: "length s_vars - (i + 1) = m" and le: "i + 1 \<le> length s_vars"
    using Suc.prems(1) lt by simp_all
  from Suc.IH [OF m le c1 [unfolded xs' mask_and_map]] obtain t1 where
    b1: "balance_groups rng rl stp d label
           (sub_cells (\<lambda>r. P r \<and> cells r s = 0) (drop (i + 1) s_vars) (labels d label)) pos
         = Inr (G1, t1, k1, pos1)" by blast
  from Suc.IH [OF m le c2 [unfolded xs' mask_and_map]] obtain t2 where
    b2: "balance_groups rng rl stp d label
           (sub_cells (\<lambda>r. P r \<and> cells r s = 1) (drop (i + 1) s_vars) (labels d label)) pos1
         = Inr (G2, t2, k2, pos')" by blast
  from b1 b2 show ?case
    by (simp add: dr sub_cells_Cons balance_groups_append G' it)
qed

text \<open>
  Conversely, an inner call returns the pair of the balanced cells when the columns
  exist and the count test fails at its node and below.
\<close>

lemma sample_partial_complete:
  assumes "length s_vars - i = m" and "i \<le> length s_vars"
    and lab: "label \<in> set (columns d)" and cols: "set s_vars \<subseteq> set (columns d)"
    and lim: "limit_loop d s_vars 1 = Inr limit"
    and chk: "\<forall>j. i \<le> j \<and> j < length s_vars \<longrightarrow>
                2 ^ (length s_vars - j) * length (labels d label) \<noteq> limit * length (labels d label)"
    and bg: "balance_groups rng rl stp d label (sub_cells P (drop i s_vars) (labels d label)) pos
               = Inr (gs, trs, it, pos')"
  shows "sample rng perm rl stp d s_vars label i [] (Mask (map P (rows d))) pos = Inr (Partial gs it, pos')"
  using assms(1,2,6,7)
proof (induction m arbitrary: i P pos gs trs it pos')
  case 0
  then have i: "i = length s_vars" by simp
  from lab have ys: "getitem d label = Inr (map (\<lambda>r. cells r label) (rows d))"
    by (simp add: getitem_def)
  from "0.prems"(4) have "balance_groups rng rl stp d label (map (Pair P) (labels d label)) pos
      = Inr (gs, trs, it, pos')" by (simp add: i sub_cells_Nil)
  with base_loop_groups [OF lab refl, of rng rl stp P "labels d label" "[]" "[]" 0 pos]
  have "base_loop rng rl stp d label (Mask (map P (rows d))) (labels d label) [] [] 0 pos
      = Inr (gs, trs, it, pos')" by simp
  then show ?case
    by (subst sample.simps) (simp add: i ys labels_def)
next
  case (Suc m)
  then have lt: "i < length s_vars" by simp
  define s where "s = s_vars ! i"
  from lt have dr: "drop i s_vars = s # drop (Suc i) s_vars"
    by (simp add: s_def Cons_nth_drop_Suc)
  from lt cols have "s \<in> set (columns d)" by (auto simp: s_def)
  then have xs: "getitem d (s_vars ! i) = Inr (map (\<lambda>r. cells r s) (rows d))"
    by (simp add: getitem_def s_def)
  from lab have ys: "getitem d label = Inr (map (\<lambda>r. cells r label) (rows d))"
    by (simp add: getitem_def)
  from Suc.prems(4) obtain g1 t1 k1 p1 g2 t2 k2 where
    b1: "balance_groups rng rl stp d label
           (sub_cells (\<lambda>r. P r \<and> cells r s = 0) (drop (i + 1) s_vars) (labels d label)) pos
         = Inr (g1, t1, k1, p1)" and
    b2: "balance_groups rng rl stp d label
           (sub_cells (\<lambda>r. P r \<and> cells r s = 1) (drop (i + 1) s_vars) (labels d label)) p1
         = Inr (g2, t2, k2, pos')" and
    gs: "gs = g1 @ g2" and it: "it = max k1 k2"
    by (auto simp: dr sub_cells_Cons balance_groups_append split: sum.splits prod.splits)
  have m: "length s_vars - (i + 1) = m" and le: "i + 1 \<le> length s_vars"
    using Suc.prems(1) lt by simp_all
  have chk': "\<forall>j. i + 1 \<le> j \<and> j < length s_vars \<longrightarrow>
      2 ^ (length s_vars - j) * length (labels d label) \<noteq> limit * length (labels d label)"
  proof (intro allI impI)
    fix j assume "i + 1 \<le> j \<and> j < length s_vars"
    then have "i \<le> j \<and> j < length s_vars" by simp
    with Suc.prems(3) show "2 ^ (length s_vars - j) * length (labels d label)
        \<noteq> limit * length (labels d label)" by blast
  qed
  note c1 = Suc.IH [OF m le chk' b1] and c2 = Suc.IH [OF m le chk' b2]
  from lt have pw: "2 * (2::nat) ^ (length s_vars - (i + 1)) = 2 ^ (length s_vars - i)"
    by (metis Suc_diff_Suc Suc_eq_plus1 power_Suc)
  from balance_groups_length [OF b1] balance_groups_length [OF b2]
  have "length (g1 @ g2) = (2 * 2 ^ (length s_vars - (i + 1))) * length (labels d label)"
    by (simp add: length_sub_cells)
  then have len: "length (g1 @ g2) = 2 ^ (length s_vars - i) * length (labels d label)"
    by (simp only: pw)
  from Suc.prems(3) [rule_format, of i] lt have "2 ^ (length s_vars - i) * length (labels d label)
      \<noteq> limit * length (labels d label)" by blast
  with len have ne: "length (g1 @ g2) \<noteq> limit * length (np_unique (map (\<lambda>r. cells r label) (rows d)))"
    by (simp add: labels_def)
  show ?case
    using lt ne c1 c2 lim
    by (subst sample.simps) (simp add: xs ys mask_and_map gs it del: mask_and.simps)
qed

section \<open>The whole call\<close>

lemma mask_PyTrue:
  "mask_and PyTrue (series_eq (map (\<lambda>r. cells r s) (rows d)) v) = Mask (map (\<lambda>r. cells r s = v) (rows d))"
  by (simp add: series_eq_def comp_def)

lemma sub_cells_root:
  "sub_cells (\<lambda>r. True) (s # ss) ls =
     sub_cells (\<lambda>r. cells r s = 0) ss ls @ sub_cells (\<lambda>r. cells r s = 1) ss ls"
  by (simp add: sub_cells_Cons)

text \<open>
  A call that returns has balanced the cells of all combinations, in order, and has
  assembled the result from exactly these groups.
\<close>

lemma fit_transform_sound:
  assumes "fit_transform rng perm self d attrs label pos = Inr (out, self', pos')"
  shows "attrs \<noteq> [] \<and>
         (\<exists>gs trs limit.
            balance_groups rng (round_level self) (stop self) d label
               (sub_cells (\<lambda>r. True) attrs (labels d label)) pos = Inr (gs, trs, iter self', pos') \<and>
            limit_loop d attrs 1 = Inr limit \<and>
            length gs = limit * length (labels d label) \<and>
            assemble perm gs = Inr out \<and> disparities self' = Some [])"
proof (cases attrs)
  case Nil
  with assms show ?thesis by (simp add: fit_transform_def sample_no_attrs split: if_splits)
next
  case (Cons s ss)
  from assms obtain dsp it where
    sm: "sample rng perm (round_level self) (stop self) d attrs label 0 [] PyTrue pos
           = Inr (Assembled out dsp it, pos')" and
    s': "self' = self\<lparr>disparities := Some dsp, iter := it\<rparr>"
    by (auto simp: fit_transform_def split: sum.splits prod.splits sample_result.splits)
  from sm obtain xs G1 k1 pos1 G2 k2 limit ys where
    xs: "getitem d s = Inr xs" and
    c1: "sample rng perm (round_level self) (stop self) d attrs label (0 + 1) []
           (mask_and PyTrue (series_eq xs 0)) pos = Inr (Partial G1 k1, pos1)" and
    c2: "sample rng perm (round_level self) (stop self) d attrs label (0 + 1) []
           (mask_and PyTrue (series_eq xs 1)) pos1 = Inr (Partial G2 k2, pos')" and
    lim: "limit_loop d attrs 1 = Inr limit" and
    ys: "getitem d label = Inr ys" and
    len: "length (G1 @ G2) = limit * length (np_unique ys)" and
    asm: "assemble perm (G1 @ G2) = Inr out" and
    dsp: "dsp = []" and it: "it = max k1 k2"
    by (subst (asm) sample.simps)
      (auto simp: Cons split: sum.splits prod.splits sample_result.splits if_splits)
  from getitem_Inr [OF xs] have xs': "xs = map (\<lambda>r. cells r s) (rows d)" by simp
  from getitem_Inr [OF ys] have l: "labels d label = np_unique ys" by (simp add: labels_def)
  have m: "length attrs - (0 + 1) = length ss" and le: "0 + 1 \<le> length attrs"
    by (simp_all add: Cons)
  have dr: "drop (0 + 1) attrs = ss" by (simp add: Cons)
  from sample_partial_sound [OF m le c1 [unfolded xs' mask_PyTrue]] obtain t1 where
    b1: "balance_groups rng (round_level self) (stop self) d label
           (sub_cells (\<lambda>r. cells r s = 0) ss (labels d label)) pos = Inr (G1, t1, k1, pos1)"
    by (auto simp: Cons)
  from sample_partial_sound [OF m le c2 [unfolded xs' mask_PyTrue]] obtain t2 where
    b2: "balance_groups rng (round_level self) (stop self) d label
           (sub_cells (\<lambda>r. cells r s = 1) ss (labels d label)) pos1 = Inr (G2, t2, k2, pos')"
    by (auto simp: Cons)
  from b1 b2 have "balance_groups rng (round_level self) (stop self) d label
      (sub_cells (\<lambda>r. True) attrs (labels d label)) pos = Inr (G1 @ G2, t1 @ t2, iter self', pos')"
    by (simp add: Cons sub_cells_root balance_groups_append s' it)
  with lim len asm show ?thesis by (auto simp: Cons l s' dsp)
qed

text \<open>
  Conversely, when the columns exist, the count of combinations is \<open>2^k\<close> and all cells
  can be balanced, the call returns the assembled groups.
\<close>

lemma fit_transform_complete:
  assumes ne: "attrs \<noteq> []"
    and lab: "label \<in> set (columns d)" and cols: "set attrs \<subseteq> set (columns d)"
    and lim: "limit_loop d attrs 1 = Inr (2 ^ length attrs)"
    and L: "labels d label \<noteq> []"
    and bg: "balance_groups rng (round_level self) (stop self) d label
               (sub_cells (\<lambda>r. True) attrs (labels d label)) pos = Inr (gs, trs, it, pos')"
  shows "\<exists>out. assemble perm gs = Inr out \<and>
           fit_transform rng perm self d attrs label pos
             = Inr (out, self\<lparr>disparities := Some [], iter := it\<rparr>, pos')"
proof -
  from ne obtain s ss where Cons: "attrs = s # ss" by (cases attrs) auto
  from cols have "s \<in> set (columns d)" by (simp add: Cons)
  then have xs: "getitem d (attrs ! 0) = Inr (map (\<lambda>r. cells r s) (rows d))"
    by (simp add: getitem_def Cons)
  from lab have ys: "getitem d label = Inr (map (\<lambda>r. cells r label) (rows d))"
    by (simp add: getitem_def)
  from bg obtain g1 t1 k1 p1 g2 t2 k2 where
    b1: "balance_groups rng (round_level self) (stop self) d label
           (sub_cells (\<lambda>r. cells r s = 0) (drop (0 + 1) attrs) (labels d label)) pos
         = Inr (g1, t1, k1, p1)" and
    b2: "balance_groups rng (round_level self) (stop self) d label
           (sub_cells (\<lambda>r. cells r s = 1) (drop (0 + 1) attrs) (labels d label)) p1
         = Inr (g2, t2, k2, pos')" and
    gs: "gs = g1 @ g2" and it: "it = max k1 k2"
    by (auto simp: Cons sub_cells_root balance_groups_append split: sum.splits prod.splits)
  have m: "length attrs - (0 + 1) = length ss" and le: "0 + 1 \<le> length attrs"
    by (simp_all add: Cons)
  have chk: "\<forall>j. 0 + 1 \<le> j \<and> j < length attrs \<longrightarrow>
      2 ^ (length attrs - j) * length (labels d label) \<noteq> 2 ^ length attrs * length (labels d label)"
  proof (intro allI impI)
    fix j assume j: "0 + 1 \<le> j \<and> j < length attrs"
    then have "length attrs - j < length attrs" by arith
    then have "(2::nat) ^ (length attrs - j) < 2 ^ length attrs" by simp
    with L show "2 ^ (length attrs - j) * length (labels d label)
        \<noteq> 2 ^ length attrs * length (labels d label)" by simp
  qed
  note c1 = sample_partial_complete [OF m le lab cols lim chk b1, of perm]
    and c2 = sample_partial_complete [OF m le lab cols lim chk b2, of perm]
  from balance_groups_length [OF bg] have len: "length (g1 @ g2) = 2 ^ length attrs * length (labels d label)"
    by (simp add: length_sub_cells gs)
  with L have "g1 @ g2 \<noteq> []" by (metis length_0_conv mult_is_0 power_not_zero zero_neq_numeral)
  then obtain out where asm: "assemble perm (g1 @ g2) = Inr out" by (simp add: assemble_def)
  have "sample rng perm (round_level self) (stop self) d attrs label 0 [] PyTrue pos
          = Inr (Assembled out [] it, pos')"
    using len c1 c2 lim asm ne
    by (subst sample.simps)
      (simp add: xs ys mask_PyTrue it labels_def del: mask_and.simps)
  with asm show ?thesis by (simp add: fit_transform_def gs)
qed

section \<open>Counting the combinations\<close>

lemma length_np_unique: "length (np_unique xs) = card (set xs)"
  by (simp add: np_unique_def length_remdups_card_conv)

lemma limit_loop_value:
  "limit_loop d ss n = Inr limit \<Longrightarrow>
     limit = n * prod_list (map (\<lambda>s. length (np_unique (map (\<lambda>r. cells r s) (rows d)))) ss)"
proof (induction ss arbitrary: n)
  case Nil
  then show ?case by simp
next
  case (Cons s ss)
  from Cons.prems obtain xs where xs: "getitem d s = Inr xs"
    and r: "limit_loop d ss (n * length (np_unique xs)) = Inr limit"
    by (auto split: sum.splits)
  from getitem_Inr [OF xs] Cons.IH [OF r] show ?case by (simp add: mult.assoc)
qed

lemma limit_loop_cols:
  "set ss \<subseteq> set (columns d) \<Longrightarrow>
     limit_loop d ss n =
       Inr (n * prod_list (map (\<lambda>s. length (np_unique (map (\<lambda>r. cells r s) (rows d)))) ss))"
proof (induction ss arbitrary: n)
  case Nil
  then show ?case by simp
next
  case (Cons s ss)
  then show ?case by (simp add: getitem_def mult.assoc)
qed

lemma prod_list_ge_pow2:
  fixes ns :: "nat list"
  assumes "\<forall>x \<in> set ns. 2 \<le> x"
  shows "2 ^ length ns \<le> prod_list ns"
  using assms
proof (induction ns)
  case Nil
  then show ?case by simp
next
  case (Cons a ns)
  then have "2 * 2 ^ length ns \<le> a * prod_list ns" by (intro mult_le_mono) simp_all
  then show ?case by simp
qed

lemma prod_list_gt_pow2:
  fixes ns :: "nat list"
  assumes "\<forall>x \<in> set ns. 2 \<le> x" and "\<exists>x \<in> set ns. 2 < x"
  shows "2 ^ length ns < prod_list ns"
  using assms
proof (induction ns)
  case Nil
  then show ?case by simp
next
  case (Cons a ns)
  from Cons.prems(1) have a: "2 \<le> a" and all: "\<forall>x \<in> set ns. 2 \<le> x" by simp_all
  from prod_list_ge_pow2 [OF all] have ge: "2 ^ length ns \<le> prod_list ns" .
  have p: "0 < (2::nat) ^ length ns" by simp
  show ?case
  proof (cases "2 < a")
    case True
    then have "2 * 2 ^ length ns < a * 2 ^ length ns" using p by simp
    also have "\<dots> \<le> a * prod_list ns" using ge by simp
    finally show ?thesis by simp
  next
    case False
    with Cons.prems(2) have "\<exists>x \<in> set ns. 2 < x" by auto
    from Cons.IH [OF all this] have "2 * 2 ^ length ns < 2 * prod_list ns" by simp
    also have "\<dots> \<le> a * prod_list ns" using a by simp
    finally show ?thesis by simp
  qed
qed

section \<open>Non-empty cells\<close>

lemma sub_cells_fst:
  "q \<in> set (sub_cells P ss ls) \<Longrightarrow> fst q r \<Longrightarrow> P r"
  by (auto simp: sub_cells_def)

lemma sub_cells_nonempty: "ls \<noteq> [] \<Longrightarrow> sub_cells P ss ls \<noteq> []"
  using length_sub_cells [of P ss ls] by (metis length_0_conv mult_is_0 power_not_zero zero_neq_numeral)

lemma sub_cells_row:
  assumes "\<forall>q \<in> set (sub_cells P ss ls). \<exists>r \<in> set xs. fst q r" and "ls \<noteq> []"
  shows "\<exists>r \<in> set xs. P r"
proof -
  from sub_cells_nonempty [OF assms(2)] obtain q where q: "q \<in> set (sub_cells P ss ls)"
    by (cases "sub_cells P ss ls") auto
  with assms(1) obtain r where "r \<in> set xs" "fst q r" by blast
  with sub_cells_fst [OF q] show ?thesis by blast
qed

text \<open>When no cell is empty, every attribute takes both values \<open>0\<close> and \<open>1\<close>.\<close>

lemma sub_cells_values:
  assumes "\<forall>q \<in> set (sub_cells P ss ls). \<exists>r \<in> set xs. fst q r" and "ls \<noteq> []"
    and "s \<in> set ss" and "v = 0 \<or> v = 1"
  shows "\<exists>r \<in> set xs. P r \<and> cells r s = v"
  using assms(1,3)
proof (induction ss arbitrary: P)
  case Nil
  then show ?case by simp
next
  case (Cons a ss)
  from Cons.prems(1) have
    h0: "\<forall>q \<in> set (sub_cells (\<lambda>r. P r \<and> cells r a = 0) ss ls). \<exists>r \<in> set xs. fst q r" and
    h1: "\<forall>q \<in> set (sub_cells (\<lambda>r. P r \<and> cells r a = 1) ss ls). \<exists>r \<in> set xs. fst q r"
    by (simp_all add: sub_cells_Cons)
  show ?case
  proof (cases "s = a")
    case True
    from assms(4) show ?thesis
    proof
      assume "v = 0"
      with sub_cells_row [OF h0 assms(2)] True show ?thesis by blast
    next
      assume "v = 1"
      with sub_cells_row [OF h1 assms(2)] True show ?thesis by blast
    qed
  next
    case False
    with Cons.prems(2) have "s \<in> set ss" by simp
    from Cons.IH [OF h0 this] show ?thesis by blast
  qed
qed

lemma group_row:
  "rows (group_of d label Q l) \<noteq> [] \<Longrightarrow> \<exists>r \<in> set (rows d). Q r"
  by (auto simp: group_of_def filter_empty_conv)

lemma two_values:
  assumes "\<exists>r \<in> set xs. f r = (0::int)" and "\<exists>r \<in> set xs. f r = 1"
  shows "2 \<le> length (np_unique (map f xs))"
proof -
  from assms have "{0, 1} \<subseteq> set (map f xs)" by force
  then have "card {0, 1 :: int} \<le> card (set (map f xs))" by (intro card_mono) simp_all
  then show ?thesis by (simp add: length_np_unique)
qed

text \<open>What a successful call implies: no cell is empty and the count of combinations is \<open>2^k\<close>.\<close>

lemma fit_transform_success:
  assumes "fit_transform rng perm self d attrs label pos = Inr (out, self', pos')"
  shows "attrs \<noteq> [] \<and> labels d label \<noteq> [] \<and>
         (\<forall>q \<in> set (sub_cells (\<lambda>r. True) attrs (labels d label)).
            rows (group_of d label (fst q) (snd q)) \<noteq> []) \<and>
         limit_loop d attrs 1 = Inr (2 ^ length attrs)"
proof -
  from fit_transform_sound [OF assms] obtain gs trs limit where
    ne: "attrs \<noteq> []" and
    bg: "balance_groups rng (round_level self) (stop self) d label
           (sub_cells (\<lambda>r. True) attrs (labels d label)) pos = Inr (gs, trs, iter self', pos')" and
    lim: "limit_loop d attrs 1 = Inr limit" and
    len: "length gs = limit * length (labels d label)" and
    asm: "assemble perm gs = Inr out" by blast
  from asm have "gs \<noteq> []" by (auto simp: assemble_def split: if_splits)
  with len have L: "labels d label \<noteq> []" by auto
  from balance_groups_length [OF bg] have "length gs = 2 ^ length attrs * length (labels d label)"
    by (simp add: length_sub_cells)
  with len have "limit * length (labels d label) = 2 ^ length attrs * length (labels d label)"
    by (simp only:)
  with L have "limit = 2 ^ length attrs" by simp
  with ne L balance_groups_nonempty [OF bg] lim show ?thesis by simp
qed

section \<open>Empty cells\<close>

lemma cell_rows_group:
  "cell_rows d attrs label cl = rows (group_of d label (holds attrs (fst cl)) (snd cl))"
  by (simp add: cell_rows_def group_of_def in_cell_def [abs_def])

lemma not_Inr_error: "(\<And>v. x \<noteq> Inr v) \<Longrightarrow> \<exists>e. x = Inl e"
  by (cases x) auto

text \<open>
  C8: when a cell, a combination of protected-attribute values with a label value, holds
  no row, \<^verbatim>\<open>fit_transform\<close> ends in an error and returns no dataset; the Group Balancer
  itself fails on the empty group with \<^verbatim>\<open>ZeroDivisionError\<close>, since the observed weight
  of the group is zero.
\<close>

theorem empty_cell_fails:
  assumes "cl \<in> set (all_cells d attrs label)" and "cell_rows d attrs label cl = []"
  shows "(\<exists>e. fit_transform rng perm self d attrs label pos = Inl e) \<and>
         balance_set rng (spec_w_exp d label (holds attrs (fst cl)) (snd cl))
             (spec_w_obs d label (holds attrs (fst cl)) (snd cl))
             (group_of d label (holds attrs (fst cl)) (snd cl)) d rl stp p = Inl ZeroDivisionError"
proof
  show "\<exists>e. fit_transform rng perm self d attrs label pos = Inl e"
  proof (rule not_Inr_error)
    fix v show "fit_transform rng perm self d attrs label pos \<noteq> Inr v"
    proof
      assume a: "fit_transform rng perm self d attrs label pos = Inr v"
      obtain out self' pos' where v: "v = (out, self', pos')" by (cases v)
      from fit_transform_success [OF a [unfolded v]] have
        ne: "\<forall>q \<in> set (sub_cells (\<lambda>r. True) attrs (labels d label)).
               rows (group_of d label (fst q) (snd q)) \<noteq> []" by blast
      from assms(1) have "(holds attrs (fst cl), snd cl)
          \<in> set (map (\<lambda>cl. (holds attrs (fst cl), snd cl)) (all_cells d attrs label))"
        by force
      then have "(holds attrs (fst cl), snd cl) \<in> set (sub_cells (\<lambda>r. True) attrs (labels d label))"
        by (simp only: all_cells_sub_cells)
      with ne have "rows (group_of d label (holds attrs (fst cl)) (snd cl)) \<noteq> []" by force
      with assms(2) show False by (simp add: cell_rows_group)
    qed
  qed
next
  from assms(2) have "spec_w_obs d label (holds attrs (fst cl)) (snd cl) = 0"
    by (simp add: spec_w_obs_zero_iff cell_rows_group)
  then show "balance_set rng (spec_w_exp d label (holds attrs (fst cl)) (snd cl))
             (spec_w_obs d label (holds attrs (fst cl)) (snd cl))
             (group_of d label (holds attrs (fst cl)) (snd cl)) d rl stp p = Inl ZeroDivisionError"
    by (simp add: balance_set_empty_group)
qed

theorem empty_cell_fails_witness:
  "([1], 1) \<in> set (all_cells d_gap [''A''] ''Y'') \<and> cell_rows d_gap [''A''] ''Y'' ([1], 1) = [] \<and>
   (\<exists>e. fit_transform rng0 perm0 (DEMV_init None False (- 1)) d_gap [''A''] ''Y'' 0 = Inl e) \<and>
   balance_set rng0 (spec_w_exp d_gap ''Y'' (holds [''A''] [1]) 1) (spec_w_obs d_gap ''Y'' (holds [''A''] [1]) 1)
       (group_of d_gap ''Y'' (holds [''A''] [1]) 1) d_gap None (- 1) 0
     = Inl ZeroDivisionError"
proof -
  have h1: "([1], 1) \<in> set (all_cells d_gap [''A''] ''Y'')" by code_simp
  have "length (cell_rows d_gap [''A''] ''Y'' ([1], 1)) = 0" by code_simp
  then have h2: "cell_rows d_gap [''A''] ''Y'' ([1], 1) = []" by simp
  from empty_cell_fails [OF h1 h2, where rng = rng0 and perm = perm0
      and self = "DEMV_init None False (- 1)" and pos = 0 and rl = None and stp = "- 1" and p = 0]
    h1 h2
  show ?thesis by simp
qed

section \<open>More than two values\<close>

text \<open>
  C7, as claimed: a dataset in which a protected attribute has more than two values is
  rejected up front, before any recursion or balancing. On \<open>d_three\<close>, where \<open>A\<close> takes the
  values \<open>0, 1, 2\<close>, the sampler balances the four cells of the values \<open>0\<close> and \<open>1\<close>, taking
  two draws from the generator and one balancing step, and returns the pair of these
  groups; the call fails only afterwards, when \<^verbatim>\<open>fit_transform\<close> unpacks the pair, with
  \<^verbatim>\<open>ValueError\<close>.
\<close>

theorem three_values_fail_late:
  "length (np_unique (map (\<lambda>r. cells r ''A'') (rows d_three))) = 3 \<and>
   (case sample rng0 perm0 None (- 1) d_three [''A''] ''Y'' 0 [] PyTrue 0 of
      Inl e \<Rightarrow> False
    | Inr (Partial G it, pos') \<Rightarrow> map len G = [2, 2, 1, 1] \<and> it = 1 \<and> pos' = 2
    | Inr (Assembled df trs it, pos') \<Rightarrow> False) \<and>
   (case fit_transform rng0 perm0 (DEMV_init None False (- 1)) d_three [''A''] ''Y'' 0 of
      Inl e \<Rightarrow> e = ValueError | Inr s \<Rightarrow> False)"
  by code_simp

text \<open>
  C7, amended: when some protected attribute has more than two distinct observed values,
  \<^verbatim>\<open>fit_transform\<close> never returns a dataset and ends in an error. There is no check of
  the number of values: the error arises during or after the balancing.
\<close>

theorem many_values_fail:
  assumes "s \<in> set attrs" and "2 < length (np_unique (map (\<lambda>r. cells r s) (rows d)))"
  shows "\<exists>e. fit_transform rng perm self d attrs label pos = Inl e"
proof (rule not_Inr_error)
  fix v show "fit_transform rng perm self d attrs label pos \<noteq> Inr v"
  proof
    assume a: "fit_transform rng perm self d attrs label pos = Inr v"
    obtain out self' pos' where v: "v = (out, self', pos')" by (cases v)
    from fit_transform_success [OF a [unfolded v]] have
      L: "labels d label \<noteq> []" and
      ne: "\<forall>q \<in> set (sub_cells (\<lambda>r. True) attrs (labels d label)).
             rows (group_of d label (fst q) (snd q)) \<noteq> []" and
      lim: "limit_loop d attrs 1 = Inr (2 ^ length attrs)" by blast+
    from ne have rw: "\<forall>q \<in> set (sub_cells (\<lambda>r. True) attrs (labels d label)).
        \<exists>r \<in> set (rows d). fst q r" by (blast dest: group_row)
    let ?ns = "map (\<lambda>s. length (np_unique (map (\<lambda>r. cells r s) (rows d)))) attrs"
    have "\<forall>x \<in> set ?ns. 2 \<le> x"
    proof
      fix x assume "x \<in> set ?ns"
      then obtain t where t: "t \<in> set attrs"
        and x: "x = length (np_unique (map (\<lambda>r. cells r t) (rows d)))" by auto
      from sub_cells_values [OF rw L t, of 0] sub_cells_values [OF rw L t, of 1]
      have "\<exists>r \<in> set (rows d). cells r t = 0" "\<exists>r \<in> set (rows d). cells r t = 1" by auto
      from two_values [OF this] x show "2 \<le> x" by simp
    qed
    moreover from assms have "\<exists>x \<in> set ?ns. 2 < x" by auto
    ultimately have "2 ^ length ?ns < prod_list ?ns" by (rule prod_list_gt_pow2)
    with limit_loop_value [OF lim] show False by simp
  qed
qed

theorem many_values_fail_witness:
  "''A'' \<in> set [''A''] \<and> 2 < length (np_unique (map (\<lambda>r. cells r ''A'') (rows d_three))) \<and>
   (\<exists>e. fit_transform rng0 perm0 (DEMV_init None False (- 1)) d_three [''A''] ''Y'' 0 = Inl e)"
proof -
  have h1: "''A'' \<in> set [''A'']" by simp
  have h2: "2 < length (np_unique (map (\<lambda>r. cells r ''A'') (rows d_three)))" by code_simp
  from many_values_fail [OF h1 h2] h1 h2 show ?thesis by blast
qed

end
